theory Spec2Isabelle
  imports Complex_Main
begin

section \<open>The token-card renderer of trendbot (\<open>generateImageForCast\<close>, src/index.ts)\<close>

text \<open>
  The renderer is one TypeScript function that draws into a node-canvas 2D context. Its text
  region is computed by three inline stages: the word-wrap loop (lines 236-276), the box
  geometry (lines 279-291 and 336-339) and the drawing loop with its ellipsis-fitting
  \<open>while\<close> loop (lines 342-356). Each stage is embedded below as a function of its own, and
  \<open>generateImageForCast\<close> composes them in the order of the source.

  A JavaScript string is modelled as a \<open>string\<close>; in the texts that are wrapped, measured
  and sliced one \<open>char\<close> stands for one code unit. The literals of the renderer are ASCII
  but for the bullet of the footer caption, which is only drawn and is kept as its three
  UTF-8 bytes.
  JavaScript numbers are modelled as \<open>real\<close> (every number the layout computes is an
  integer far below \<open>2^53\<close>, and a measured width is only compared). The text-measurement
  backend \<open>ctx.measureText(s).width\<close> under the font currently set on the context is a parameter
  \<open>m font s\<close>; the clock read by \<open>new Date().toISOString()\<close> is a parameter \<open>now\<close>, and the
  library function \<open>String.prototype.toUpperCase\<close> is a parameter \<open>toUpperCase\<close>.
  The field \<open>text\<close> of a cast is called \<open>cast_text\<close>, \<open>text\<close> being a keyword here.
\<close>

subsection \<open>Data model\<close>

record Author =
  username :: string
  display_name :: "string option"

record Cast =
  cast_text :: string
  hash :: string
  author :: Author
  created_at :: string

type_synonym measurer = "string \<Rightarrow> string \<Rightarrow> real"

subsection \<open>String primitives of JavaScript used by the renderer\<close>

definition newline :: char where
  "newline = CHR 0x0A"

text \<open>\<open>s.split(c)\<close> for a one-character separator: never empty, \<open>"".split(c) = [""]\<close>.\<close>

fun split :: "char \<Rightarrow> string \<Rightarrow> string list" where
  "split c [] = [[]]"
| "split c (x # xs) =
     (if x = c then [] # split c xs
      else (case split c xs of [] \<Rightarrow> [[x]] | w # ws \<Rightarrow> (x # w) # ws))"

text \<open>\<open>xs.slice(0, e)\<close>: a negative end counts from the end of the sequence.\<close>

definition slice0 :: "'a list \<Rightarrow> int \<Rightarrow> 'a list" where
  "slice0 xs e =
     (let len = int (length xs);
          k = (if e < 0 then max (len + e) 0 else min e len)
      in take (nat k) xs)"

subsection \<open>Constants of the layout\<close>

definition width :: real where "width = 1200"
definition height :: real where "height = 1200"
definition maxWidth :: real where "maxWidth = width - 280"
definition lineHeight :: real where "lineHeight = 48"
definition textBoxPadding :: real where "textBoxPadding = 40"
definition textBoxY :: real where "textBoxY = 340"
definition maxTextBoxHeight :: real where "maxTextBoxHeight = 460"
definition cornerRadius :: real where "cornerRadius = 20"
definition textFont :: string where "textFont = ''36px sans-serif''"

subsection \<open>Word wrap (lines 228-276)\<close>

definition castText :: "Cast \<Rightarrow> string" where
  "castText castInfo = (if cast_text castInfo = [] then ''No cast text available'' else cast_text castInfo)"

text \<open>
  One iteration of the \<open>for\<close> loop over \<open>words\<close>; the state is \<open>(lines, currentLine)\<close>.
  \<open>parts[0]\<close> and \<open>parts[parts.length - 1]\<close> are read from a sequence that \<open>split\<close> never
  leaves empty.
\<close>

definition wrapStep :: "measurer \<Rightarrow> string list \<times> string \<Rightarrow> string \<Rightarrow> string list \<times> string" where
  "wrapStep m st word =
     (let lines = fst st; currentLine = snd st in
      if newline \<in> set word then
        (let parts = split newline word;
             st1 = (if currentLine \<noteq> [] then
                      (lines @ [currentLine @ (if hd parts \<noteq> [] then '' '' @ hd parts else [])], [])
                    else if hd parts \<noteq> [] then (lines @ [hd parts], currentLine)
                    else (lines, currentLine));
             lines2 = fst st1 @ map (\<lambda>j. parts ! j) [1 ..< length parts - 1]
         in (lines2, if length parts > 1 then last parts else snd st1))
      else
        (let testLine = currentLine @ (if currentLine \<noteq> [] then '' '' else []) @ word in
         if m textFont testLine > maxWidth \<and> currentLine \<noteq> [] then (lines @ [currentLine], word)
         else (lines, testLine)))"

definition wrapLines :: "measurer \<Rightarrow> string \<Rightarrow> string list" where
  "wrapLines m txt =
     (let st = foldl (wrapStep m) ([], []) (split CHR '' '' txt) in
      if snd st \<noteq> [] then fst st @ [snd st] else fst st)"

subsection \<open>Box geometry (lines 279-291, 336-339)\<close>

definition textBoxHeight :: "nat \<Rightarrow> real" where
  "textBoxHeight n = min (real n * lineHeight + textBoxPadding * 2) maxTextBoxHeight"

definition maxVisibleLines :: "nat \<Rightarrow> int" where
  "maxVisibleLines n = \<lfloor>(textBoxHeight n - textBoxPadding * 2) / lineHeight\<rfloor>"

definition visibleLines :: "string list \<Rightarrow> string list" where
  "visibleLines lines = slice0 lines (maxVisibleLines (length lines))"

subsection \<open>Ellipsis fitting and the drawing loop (lines 342-356)\<close>

text \<open>
  The \<open>while\<close> loop of lines 348-350. It has no bound of its own, so it is a partial function:
  \<open>None\<close> is a loop that never exits.
\<close>

partial_function (option) fitEllipsis :: "measurer \<Rightarrow> string \<Rightarrow> string option" where
  "fitEllipsis m truncatedLine =
     (if m textFont (truncatedLine @ ''...'') > maxWidth
      then fitEllipsis m (slice0 truncatedLine (- 1))
      else Some truncatedLine)"

datatype fill_style =
    Color string
  | RadialGradient real real real real real real "(real \<times> string) list"

datatype canvas_op =
    SetFillStyle fill_style
  | SetStrokeStyle string
  | SetFont string
  | SetTextAlign string
  | SetLineWidth real
  | FillRect real real real real
  | FillText string real real
  | BeginPath
  | MoveTo real real
  | LineTo real real
  | QuadraticCurveTo real real real real
  | Arc real real real real real
  | ClosePath
  | Fill
  | Stroke

text \<open>
  The \<open>for\<close> loop over \<open>visibleLines\<close>, from index \<open>i\<close> and baseline \<open>y\<close> on; \<open>mvl\<close> is
  \<open>maxVisibleLines\<close> and \<open>n\<close> is \<open>lines.length\<close>. The result is the \<open>fillText\<close> calls it makes.
\<close>

fun drawTextLines :: "measurer \<Rightarrow> int \<Rightarrow> nat \<Rightarrow> nat \<Rightarrow> real \<Rightarrow> string list \<Rightarrow> canvas_op list option" where
  "drawTextLines m mvl n i y [] = Some []"
| "drawTextLines m mvl n i y (l # ls) =
     (if int i = mvl - 1 \<and> int n > mvl then
        (case fitEllipsis m l of
           None \<Rightarrow> None
         | Some truncatedLine \<Rightarrow>
             map_option (\<lambda>ops. FillText (truncatedLine @ ''...'') (120 + textBoxPadding) y # ops)
               (drawTextLines m mvl n (Suc i) (y + lineHeight) ls))
      else
        map_option (\<lambda>ops. FillText l (120 + textBoxPadding) y # ops)
          (drawTextLines m mvl n (Suc i) (y + lineHeight) ls))"

definition truncated :: "string list \<Rightarrow> bool" where
  "truncated lines = (int (length lines) > maxVisibleLines (length lines))"

definition drawCastText :: "measurer \<Rightarrow> string list \<Rightarrow> canvas_op list option" where
  "drawCastText m lines =
     drawTextLines m (maxVisibleLines (length lines)) (length lines) 0
       (textBoxY + textBoxPadding + lineHeight / 2) (visibleLines lines)"

subsection \<open>The whole render (lines 178-413)\<close>

text \<open>The bullet U+2022 of the footer caption, as its three UTF-8 bytes.\<close>

definition bullet :: string where
  "bullet = [CHR 0xE2, CHR 0x80, CHR 0xA2]"

definition drawHeader :: "Cast \<Rightarrow> string \<Rightarrow> canvas_op list" where
  "drawHeader castInfo tokenName =
     [SetFillStyle (Color ''#121a2e''), FillRect 0 0 width height,
      SetFillStyle (Color ''#F8FAFC''), SetFont ''bold 72px sans-serif'', SetTextAlign ''center'',
      FillText tokenName (width / 2) 120,
      SetStrokeStyle ''#334155'', SetLineWidth 2, BeginPath, MoveTo 100 160,
      LineTo (width - 100) 160, Stroke,
      SetFillStyle (Color ''#94A3B8''), SetFont ''36px sans-serif'', SetTextAlign ''left'',
      FillText (''@'' @ username (author castInfo)) 120 220]"

definition drawDisplayName :: "measurer \<Rightarrow> Cast \<Rightarrow> canvas_op list" where
  "drawDisplayName m castInfo =
     (case display_name (author castInfo) of
        None \<Rightarrow> []
      | Some displayName \<Rightarrow>
          if displayName = [] then []
          else [SetFillStyle (Color ''#F8FAFC''), SetFont ''bold 44px sans-serif'']
             @ (if m ''bold 44px sans-serif'' displayName > width - 240
                then [SetFont ''bold 36px sans-serif''] else [])
             @ [FillText displayName 120 280])"

definition drawTextBox :: "real \<Rightarrow> canvas_op list" where
  "drawTextBox boxHeight =
     [SetFillStyle (Color ''rgba(30, 41, 59, 0.7)''), BeginPath,
      MoveTo (120 + cornerRadius) textBoxY,
      LineTo (width - 120 - cornerRadius) textBoxY,
      QuadraticCurveTo (width - 120) textBoxY (width - 120) (textBoxY + cornerRadius),
      LineTo (width - 120) (textBoxY + boxHeight - cornerRadius),
      QuadraticCurveTo (width - 120) (textBoxY + boxHeight)
        (width - 120 - cornerRadius) (textBoxY + boxHeight),
      LineTo (120 + cornerRadius) (textBoxY + boxHeight),
      QuadraticCurveTo 120 (textBoxY + boxHeight) 120 (textBoxY + boxHeight - cornerRadius),
      LineTo 120 (textBoxY + cornerRadius),
      QuadraticCurveTo 120 textBoxY (120 + cornerRadius) textBoxY,
      ClosePath, Fill,
      SetStrokeStyle ''#475569'', SetLineWidth 2, Stroke,
      SetFillStyle (Color ''#F8FAFC''), SetTextAlign ''left'']"

definition drawToken :: "(string \<Rightarrow> string) \<Rightarrow> real \<Rightarrow> string \<Rightarrow> canvas_op list" where
  "drawToken toUpperCase tokenY tokenName =
     [BeginPath, Arc (width / 2) tokenY 150 0 (pi * 2),
      SetFillStyle (RadialGradient (width / 2) tokenY 20 (width / 2) tokenY 150
        [(0, ''#10B981''), (0.5, ''#3B82F6''), (1, ''#8B5CF6'')]),
      Fill,
      SetStrokeStyle ''#FFFFFF'', SetLineWidth 5, Stroke,
      SetFillStyle (Color ''#FFFFFF''), SetFont ''bold 120px sans-serif'', SetTextAlign ''center'',
      FillText (toUpperCase (take 1 tokenName)) (width / 2) (tokenY + 40)]"

definition drawFooter :: "string \<Rightarrow> canvas_op list" where
  "drawFooter now =
     [SetFillStyle (Color ''#94A3B8''), SetFont ''20px sans-serif'', SetTextAlign ''center'',
      FillText (''Generated by Farcaster Trending Bot '' @ bullet @ '' '' @ now)
        (width / 2) (height - 40)]"

text \<open>
  The render returns the sequence of operations applied to the drawing surface, which
  \<open>canvas.toBuffer("image/png")\<close> then encodes; \<open>None\<close> is a render that never returns. The
  progress spinner and the console output are left out.
\<close>

definition generateImageForCast ::
  "measurer \<Rightarrow> (string \<Rightarrow> string) \<Rightarrow> string \<Rightarrow> Cast \<Rightarrow> string \<Rightarrow> canvas_op list option" where
  "generateImageForCast m toUpperCase now castInfo tokenName =
     (let lines = wrapLines m (castText castInfo);
          boxHeight = textBoxHeight (length lines);
          tokenY = textBoxY + boxHeight + 100
      in map_option
           (\<lambda>textOps.
              drawHeader castInfo tokenName @ drawDisplayName m castInfo
              @ [SetFont textFont, SetFillStyle (Color ''#F8FAFC'')]
              @ drawTextBox boxHeight @ textOps @ drawToken toUpperCase tokenY tokenName
              @ drawFooter now)
           (drawCastText m lines))"

subsection \<open>Notions used to state the properties\<close>

text \<open>
  The \<open>fillText\<close> calls that draw the lines \<open>ls\<close> unchanged, one per line, at the left
  edge of the text box and \<open>lineHeight\<close> apart from the baseline \<open>y\<close> on.
\<close>

definition fillTextLines :: "real \<Rightarrow> string list \<Rightarrow> canvas_op list" where
  "fillTextLines y ls =
     map (\<lambda>(k, l). FillText l (120 + textBoxPadding) (y + real k * lineHeight)) (enumerate 0 ls)"

definition firstBaseline :: real where
  "firstBaseline = textBoxY + textBoxPadding + lineHeight / 2"




text \<open>The \<open>fillText\<close> call that draws the footer caption for the timestamp \<open>now\<close>.\<close>

definition footerCaption :: "string \<Rightarrow> canvas_op" where
  "footerCaption now =
     FillText (''Generated by Farcaster Trending Bot '' @ bullet @ '' '' @ now) (width / 2) (height - 40)"

subsection \<open>Measurement backends and inputs used as concrete instances\<close>

text \<open>A backend in which every code unit is 20 pixels wide, whatever the font.\<close>

definition monoMeasure :: measurer where
  "monoMeasure font s = 20 * real (length s)"

text \<open>A backend that reports 1000 pixels for every string.\<close>

definition wideMeasure :: measurer where
  "wideMeasure font s = 1000"

text \<open>
  An uppercasing that maps the letters \<open>a\<close> to \<open>z\<close> and leaves every other code unit as it
  is, as \<open>toUpperCase\<close> does on ASCII strings.
\<close>

definition asciiUpperCase :: "string \<Rightarrow> string" where
  "asciiUpperCase s =
     map (\<lambda>c. if of_char CHR ''a'' \<le> (of_char c :: nat) \<and> (of_char c :: nat) \<le> of_char CHR ''z''
              then char_of (of_char c - (32 :: nat)) else c) s"

text \<open>Eight short wrapped lines, one more than the text box can show.\<close>

definition lines8 :: "string list" where
  "lines8 = [''one'', ''two'', ''three'', ''four'', ''five'', ''six'', ''seven'', ''eight'']"

text \<open>
  A 300-character text without forced breaks: ten words of 26 letters and one of 30,
  separated by single spaces. No two of its words fit on one line under \<open>monoMeasure\<close>.
\<close>

definition scenarioText :: string where
  "scenarioText = concat (replicate 10 (replicate 26 CHR ''a'' @ '' '')) @ replicate 30 CHR ''b''"



text \<open>A cast whose text is empty, and one with a short text.\<close>

definition emptyCast :: Cast where
  "emptyCast = \<lparr>cast_text = '''', hash = ''0x01'',
     author = \<lparr>username = ''alice'', display_name = None\<rparr>, created_at = ''''\<rparr>"

definition sampleCast :: Cast where
  "sampleCast = \<lparr>cast_text = ''gm'', hash = ''0x02'',
     author = \<lparr>username = ''bob'', display_name = Some ''Bob''\<rparr>, created_at = ''''\<rparr>"

text \<open>The text \<open>"line one\nline two"\<close>, with one forced break.\<close>

definition twoLineText :: string where
  "twoLineText = ''line one'' @ [newline] @ ''line two''"

section \<open>Properties\<close>

subsection \<open>Box geometry\<close>

lemma maxVisibleLines_eq: "maxVisibleLines n = min (int n) 7"
proof (cases "n \<le> 7")
  case True
  then have "real n * 48 + 80 \<le> 460" by simp
  then have "textBoxHeight n = real n * 48 + 80"
    by (simp add: textBoxHeight_def lineHeight_def textBoxPadding_def maxTextBoxHeight_def)
  then show ?thesis using True
    by (simp add: maxVisibleLines_def lineHeight_def textBoxPadding_def)
next
  case False
  then have "real n * 48 + 80 > 460" by simp
  then have "textBoxHeight n = 460"
    by (simp add: textBoxHeight_def lineHeight_def textBoxPadding_def maxTextBoxHeight_def)
  moreover have "\<lfloor>(380::real) / 48\<rfloor> = 7" by linarith
  ultimately show ?thesis using False
    by (simp add: maxVisibleLines_def lineHeight_def textBoxPadding_def)
qed

text \<open>
  C4: for every wrapped-line count \<open>n\<close>, the box height is
  \<open>min (n * 48 + 2 * 40) 460\<close>, the number of visible lines is the floor of
  \<open>(boxHeight - 2 * 40) / 48\<close>, and that number is never negative.
\<close>

theorem layout_maxVisibleLines_nonneg:
  "textBoxHeight n = min (real n * 48 + 2 * 40) 460
   \<and> maxVisibleLines n = \<lfloor>(textBoxHeight n - 2 * 40) / 48\<rfloor>
   \<and> 0 \<le> maxVisibleLines n"
proof (intro conjI)
  show "textBoxHeight n = min (real n * 48 + 2 * 40) 460"
    by (simp add: textBoxHeight_def lineHeight_def textBoxPadding_def maxTextBoxHeight_def)
  show "maxVisibleLines n = \<lfloor>(textBoxHeight n - 2 * 40) / 48\<rfloor>"
    by (simp add: maxVisibleLines_def lineHeight_def textBoxPadding_def)
  show "0 \<le> maxVisibleLines n"
    by (simp add: maxVisibleLines_eq)
qed

text \<open>
  C10: with the constants of the renderer (maximum box height 460, padding 40, line height
  48) the number of visible lines never exceeds 7, for every wrapped-line count and so
  for every input text under every measurement backend.
\<close>

theorem maxVisibleLines_le_7:
  "maxVisibleLines n \<le> 7 \<and> maxVisibleLines (length (wrapLines m txt)) \<le> 7"
  by (simp add: maxVisibleLines_eq)

subsection \<open>Word wrap\<close>

lemma split_not_Nil: "split c s \<noteq> []"
  by (induction s) (auto split: list.splits)

lemma split_no_separator: "w \<in> set (split c s) \<Longrightarrow> c \<notin> set w"
  by (induction s arbitrary: w) (auto split: list.splits if_splits)

lemma split_subset: "w \<in> set (split c s) \<Longrightarrow> set w \<subseteq> set s"
proof (induction s arbitrary: w)
  case Nil
  then show ?case by simp
next
  case (Cons x xs)
  obtain v vs where vs: "split c xs = v # vs"
    using split_not_Nil[of c xs] by (cases "split c xs") auto
  then have "set v \<subseteq> set xs" and "\<forall>u \<in> set vs. set u \<subseteq> set xs"
    using Cons.IH by simp_all
  with Cons.prems vs show ?case by (auto split: if_splits)
qed

lemma length_split_ge_2: "c \<in> set s \<Longrightarrow> 2 \<le> length (split c s)"
  using split_not_Nil[of c]
  by (induction s) (auto split: list.splits simp: Suc_le_eq)

lemma interior_parts:
  "map ((!) parts) [Suc 0 ..< length parts - Suc 0] = butlast (tl parts)"
  by (rule nth_equalityI) (simp_all add: nth_butlast nth_tl)

lemma wrapStep_plain:
  "newline \<notin> set word \<Longrightarrow>
     wrapStep m (lines, currentLine) word =
       (if m textFont (currentLine @ (if currentLine \<noteq> [] then '' '' else []) @ word) > maxWidth
           \<and> currentLine \<noteq> []
        then (lines @ [currentLine], word)
        else (lines, currentLine @ (if currentLine \<noteq> [] then '' '' else []) @ word))"
  by (simp add: wrapStep_def Let_def)

lemma wrapStep_break:
  assumes "newline \<in> set word"
  shows "wrapStep m (lines, currentLine) word =
     (lines
      @ (if currentLine \<noteq> [] then
           [currentLine @ (if hd (split newline word) \<noteq> [] then '' '' @ hd (split newline word) else [])]
         else if hd (split newline word) \<noteq> [] then [hd (split newline word)] else [])
      @ butlast (tl (split newline word)),
      last (split newline word))"
proof -
  from length_split_ge_2[OF assms] have "length (split newline word) > 1" by simp
  with assms show ?thesis
    by (simp add: wrapStep_def Let_def interior_parts del: split.simps)
qed










lemma split_decompose:
  assumes "c \<in> set s"
  shows "split c s = hd (split c s) # butlast (tl (split c s)) @ [last (split c s)]"
proof -
  from length_split_ge_2[OF assms] obtain a b bs where "split c s = a # b # bs"
    by (cases "split c s"; cases "tl (split c s)") auto
  then show ?thesis by simp
qed

subsection \<open>The ellipsis-fitting loop\<close>

lemma slice0_minus1: "slice0 xs (- 1) = butlast xs"
  by (cases xs rule: rev_cases) (simp_all add: slice0_def Let_def)

lemma slice0_nonneg: "0 \<le> e \<Longrightarrow> slice0 xs e = take (nat e) xs"
  by (simp add: slice0_def Let_def min_def)

lemma fitEllipsis_sound:
  assumes "fitEllipsis m l = Some t"
  shows "(\<exists>k \<le> length l. t = take k l) \<and> m textFont (t @ ''...'') \<le> maxWidth"
proof (rule fitEllipsis.raw_induct
    [where P = "\<lambda>m l t. (\<exists>k \<le> length l. t = take k l) \<and> m textFont (t @ ''...'') \<le> maxWidth",
      OF _ assms])
  fix f :: "measurer \<Rightarrow> string \<Rightarrow> string option" and m :: measurer and l t :: string
  assume IH: "\<And>m l t. f m l = Some t \<Longrightarrow>
      (\<exists>k \<le> length l. t = take k l) \<and> m textFont (t @ ''...'') \<le> maxWidth"
    and step: "(if maxWidth < m textFont (l @ ''...'') then f m (slice0 l (- 1)) else Some l) = Some t"
  show "(\<exists>k \<le> length l. t = take k l) \<and> m textFont (t @ ''...'') \<le> maxWidth"
  proof (cases "m textFont (l @ ''...'') > maxWidth")
    case True
    with step have "f m (butlast l) = Some t" by (simp add: slice0_minus1)
    from IH[OF this] have ex: "\<exists>k \<le> length (butlast l). t = take k (butlast l)"
      and fit: "m textFont (t @ ''...'') \<le> maxWidth" by simp_all
    from ex obtain k where k: "k \<le> length (butlast l)" and t: "t = take k (butlast l)" by blast
    from k have "k \<le> length l" by simp
    moreover have "take k (butlast l) = take k l"
      using k by (cases l rule: rev_cases) simp_all
    with t have "t = take k l" by simp
    ultimately have "\<exists>k \<le> length l. t = take k l" by blast
    with fit show ?thesis by simp
  next
    case False
    with step have "t = l" by simp
    then have "\<exists>k \<le> length l. t = take k l" by (intro exI[of _ "length l"]) simp
    with False \<open>t = l\<close> show ?thesis by simp
  qed
qed

lemma fitEllipsis_unfold:
  "fitEllipsis m l =
     (if m textFont (l @ ''...'') > maxWidth then fitEllipsis m (butlast l) else Some l)"
  by (subst fitEllipsis.simps) (simp only: slice0_minus1)

lemma fitEllipsis_complete:
  "k \<le> length l \<Longrightarrow> m textFont (take k l @ ''...'') \<le> maxWidth \<Longrightarrow> \<exists>t. fitEllipsis m l = Some t"
proof (induction l rule: rev_induct)
  case Nil
  then have "\<not> m textFont ([] @ ''...'') > maxWidth" by simp
  then show ?case by (subst fitEllipsis_unfold) (simp only: if_False, blast)
next
  case (snoc x xs)
  show ?case
  proof (cases "m textFont ((xs @ [x]) @ ''...'') > maxWidth")
    case False
    then show ?thesis by (subst fitEllipsis_unfold) (simp only: if_False, blast)
  next
    case True
    have "k \<noteq> length (xs @ [x])"
    proof
      assume "k = length (xs @ [x])"
      then have "take k (xs @ [x]) = xs @ [x]" by simp
      with snoc.prems(2) True show False by (simp only:)
    qed
    with snoc.prems(1) have k: "k \<le> length xs" by simp
    then have "take k (xs @ [x]) = take k xs" by simp
    with snoc.prems(2) have "m textFont (take k xs @ ''...'') \<le> maxWidth" by (simp only:)
    from snoc.IH[OF k this] obtain t where "fitEllipsis m xs = Some t" ..
    with True show ?thesis by (subst fitEllipsis_unfold) (simp only: if_True butlast_snoc, blast)
  qed
qed

lemma fitEllipsis_fits:
  "m textFont (l @ ''...'') \<le> maxWidth \<Longrightarrow> fitEllipsis m l = Some l"
  by (subst fitEllipsis_unfold) simp

lemma fitEllipsis_drop:
  "m textFont (l @ ''...'') > maxWidth \<Longrightarrow> fitEllipsis m l = fitEllipsis m (butlast l)"
  by (subst fitEllipsis_unfold) simp


lemma fitEllipsis_total:
  "m textFont ''...'' \<le> maxWidth \<Longrightarrow> \<exists>t. fitEllipsis m l = Some t"
  using fitEllipsis_complete[of 0 l m] by simp

text \<open>
  C1, as the code has it: the ellipsis-fitting loop returns exactly when some prefix of the
  line (the whole line and the empty prefix included) followed by \<open>"..."\<close> measures at most
  \<open>maxWidth\<close>; in particular it returns for every line when \<open>"..."\<close> alone fits.
\<close>

theorem fitEllipsis_terminates_iff:
  "(\<exists>t. fitEllipsis m l = Some t) \<longleftrightarrow> (\<exists>k \<le> length l. m textFont (take k l @ ''...'') \<le> maxWidth)"
proof
  assume "\<exists>t. fitEllipsis m l = Some t"
  then obtain t where t: "fitEllipsis m l = Some t" ..
  from fitEllipsis_sound[OF t] obtain k where "k \<le> length l" "t = take k l"
    and "m textFont (t @ ''...'') \<le> maxWidth" by blast
  then show "\<exists>k \<le> length l. m textFont (take k l @ ''...'') \<le> maxWidth" by blast
next
  assume "\<exists>k \<le> length l. m textFont (take k l @ ''...'') \<le> maxWidth"
  then obtain k where "k \<le> length l" "m textFont (take k l @ ''...'') \<le> maxWidth" by blast
  then show "\<exists>t. fitEllipsis m l = Some t" by (rule fitEllipsis_complete)
qed

text \<open>
  C1 as stated fails: under a backend for which even \<open>"" + "..."\<close> is wider than \<open>maxWidth\<close>
  the loop never exits, because \<open>"".slice(0, -1)\<close> is \<open>""\<close> again.
\<close>

theorem fitEllipsis_diverges_when_ellipsis_too_wide:
  "wideMeasure textFont ('''' @ ''...'') > maxWidth
   \<and> slice0 '''' (- 1) = ''''
   \<and> fitEllipsis wideMeasure '''' = None
   \<and> fitEllipsis wideMeasure ''abc'' = None"
proof -
  have none: "fitEllipsis wideMeasure l = None" for l
  proof (cases "fitEllipsis wideMeasure l")
    case (Some t)
    from fitEllipsis_sound[OF this] show ?thesis
      by (simp add: wideMeasure_def maxWidth_def width_def)
  qed simp
  show ?thesis
    by (simp add: none slice0_minus1) (simp add: wideMeasure_def maxWidth_def width_def)
qed

subsection \<open>The drawing loop\<close>

lemma fillTextLines_Nil: "fillTextLines y [] = []"
  by (simp add: fillTextLines_def)

lemma fillTextLines_Cons:
  "fillTextLines y (l # ls) = FillText l (120 + textBoxPadding) y # fillTextLines (y + lineHeight) ls"
  by (simp add: fillTextLines_def enumerate_Suc_eq[of 0] split_def o_def algebra_simps)

lemma fillTextLines_snoc:
  "fillTextLines y (ls @ [l]) =
     fillTextLines y ls @ [FillText l (120 + textBoxPadding) (y + real (length ls) * lineHeight)]"
  by (simp add: fillTextLines_def enumerate_append_eq)

lemma length_fillTextLines: "length (fillTextLines y ls) = length ls"
  by (simp add: fillTextLines_def)

lemma drawTextLines_Cons_plain:
  "\<not> (int i = mvl - 1 \<and> int n > mvl) \<Longrightarrow>
     drawTextLines m mvl n i y (l # ls) =
       map_option (\<lambda>ops. FillText l (120 + textBoxPadding) y # ops)
         (drawTextLines m mvl n (Suc i) (y + lineHeight) ls)"
  by (simp only: drawTextLines.simps if_False)

lemma drawTextLines_Cons_ellipsis:
  "int i = mvl - 1 \<Longrightarrow> int n > mvl \<Longrightarrow>
     drawTextLines m mvl n i y (l # ls) =
       (case fitEllipsis m l of
           None \<Rightarrow> None
         | Some truncatedLine \<Rightarrow>
             map_option (\<lambda>ops. FillText (truncatedLine @ ''...'') (120 + textBoxPadding) y # ops)
               (drawTextLines m mvl n (Suc i) (y + lineHeight) ls))"
  by simp

lemma drawTextLines_plain:
  "\<not> int n > mvl \<or> int (i + length ls) < mvl \<Longrightarrow>
     drawTextLines m mvl n i y ls = Some (fillTextLines y ls)"
proof (induction ls arbitrary: i y)
  case Nil
  show ?case by (simp add: fillTextLines_Nil)
next
  case (Cons l ls)
  from Cons.prems have c: "\<not> (int i = mvl - 1 \<and> int n > mvl)" by auto
  from Cons.prems have "\<not> int n > mvl \<or> int (Suc i + length ls) < mvl" by auto
  from Cons.IH[OF this] have "drawTextLines m mvl n (Suc i) (y + lineHeight) ls
      = Some (fillTextLines (y + lineHeight) ls)" .
  then show ?case
    by (simp only: drawTextLines_Cons_plain[OF c] fillTextLines_Cons option.map)
qed

lemma drawTextLines_truncated:
  "int n > mvl \<Longrightarrow> int (i + length ls) = mvl - 1 \<Longrightarrow>
     drawTextLines m mvl n i y (ls @ [l]) =
       map_option
         (\<lambda>t. fillTextLines y ls
               @ [FillText (t @ ''...'') (120 + textBoxPadding) (y + real (length ls) * lineHeight)])
         (fitEllipsis m l)"
proof (induction ls arbitrary: i y)
  case Nil
  then have c1: "int i = mvl - 1" and c2: "int n > mvl" by simp_all
  show ?case
    by (simp only: append_Nil drawTextLines_Cons_ellipsis[OF c1 c2])
       (simp add: fillTextLines_Nil split: option.splits)
next
  case (Cons a ls)
  from Cons.prems have c: "\<not> (int i = mvl - 1 \<and> int n > mvl)" by auto
  from Cons.prems have "int (Suc i + length ls) = mvl - 1" by simp
  from Cons.IH[OF Cons.prems(1) this, of "y + lineHeight"]
  have "drawTextLines m mvl n (Suc i) (y + lineHeight) (ls @ [l]) =
     map_option
       (\<lambda>t. fillTextLines (y + lineHeight) ls
             @ [FillText (t @ ''...'') (120 + textBoxPadding)
                  (y + lineHeight + real (length ls) * lineHeight)])
       (fitEllipsis m l)" .
  moreover have "y + lineHeight + real (length ls) * lineHeight
      = y + real (length (a # ls)) * lineHeight" by (simp add: algebra_simps)
  ultimately show ?case
    by (simp only: append_Cons drawTextLines_Cons_plain[OF c])
       (simp add: fillTextLines_Cons option.map_comp o_def del: drawTextLines.simps)
qed

lemma visibleLines_eq: "visibleLines lines = take 7 lines"
  by (simp add: visibleLines_def maxVisibleLines_eq slice0_nonneg min_def)

lemma truncated_iff: "truncated lines \<longleftrightarrow> 7 < length lines"
  by (auto simp add: truncated_def maxVisibleLines_eq)

lemma drawCastText_plain:
  assumes "\<not> truncated lines"
  shows "drawCastText m lines = Some (fillTextLines firstBaseline lines)"
proof -
  from assms have "visibleLines lines = lines" by (simp add: visibleLines_eq truncated_iff)
  moreover from assms have "\<not> int (length lines) > maxVisibleLines (length lines)"
    by (simp add: truncated_def)
  ultimately show ?thesis
    by (simp add: drawCastText_def firstBaseline_def drawTextLines_plain)
qed

lemma drawCastText_truncated:
  assumes "truncated lines"
  shows "drawCastText m lines =
     map_option
       (\<lambda>t. fillTextLines firstBaseline (take 6 lines)
             @ [FillText (t @ ''...'') (120 + textBoxPadding) (firstBaseline + 6 * lineHeight)])
       (fitEllipsis m (lines ! 6))"
proof -
  from assms have len: "7 < length lines" by (simp add: truncated_iff)
  then have "take 7 lines = take 6 lines @ [lines ! 6]"
    using take_Suc_conv_app_nth[of 6 lines] by simp
  then have vis: "visibleLines lines = take 6 lines @ [lines ! 6]" by (simp add: visibleLines_eq)
  from len have mvl: "maxVisibleLines (length lines) = 7" by (simp add: maxVisibleLines_eq)
  have "drawTextLines m 7 (length lines) 0 firstBaseline (take 6 lines @ [lines ! 6]) =
     map_option
       (\<lambda>t. fillTextLines firstBaseline (take 6 lines)
             @ [FillText (t @ ''...'') (120 + textBoxPadding)
                  (firstBaseline + real (length (take 6 lines)) * lineHeight)])
       (fitEllipsis m (lines ! 6))"
    using len by (intro drawTextLines_truncated) simp_all
  moreover from len have "real (length (take 6 lines)) = 6" by simp
  ultimately show ?thesis by (simp add: drawCastText_def vis mvl firstBaseline_def)
qed

subsection \<open>Truncation\<close>

text \<open>
  C5: if the wrapped lines are at most \<open>maxVisibleLines\<close>, nothing is truncated, every
  wrapped line is visible and each is drawn unchanged (no ellipsis appended); otherwise the
  text is truncated and the number of visible lines is \<open>maxVisibleLines\<close>, the floor of
  \<open>(boxHeight - 2 * padding) / lineHeight\<close>; that is also the number of lines drawn.
\<close>

theorem truncation_plan:
  "(int (length lines) \<le> maxVisibleLines (length lines) \<longrightarrow>
      \<not> truncated lines \<and> visibleLines lines = lines
      \<and> drawCastText m lines = Some (fillTextLines firstBaseline lines))
   \<and> (\<not> int (length lines) \<le> maxVisibleLines (length lines) \<longrightarrow>
      truncated lines
      \<and> int (length (visibleLines lines)) = maxVisibleLines (length lines)
      \<and> maxVisibleLines (length lines)
          = \<lfloor>(textBoxHeight (length lines) - 2 * textBoxPadding) / lineHeight\<rfloor>
      \<and> (\<forall>ops. drawCastText m lines = Some ops \<longrightarrow>
             int (length ops) = maxVisibleLines (length lines)))"
proof (intro conjI impI allI)
  assume le: "int (length lines) \<le> maxVisibleLines (length lines)"
  then show nt: "\<not> truncated lines" by (simp add: truncated_def)
  then show "visibleLines lines = lines" by (simp add: visibleLines_eq truncated_iff)
  from nt show "drawCastText m lines = Some (fillTextLines firstBaseline lines)"
    by (rule drawCastText_plain)
next
  assume gt: "\<not> int (length lines) \<le> maxVisibleLines (length lines)"
  then show t: "truncated lines" by (simp add: truncated_def)
  then show "int (length (visibleLines lines)) = maxVisibleLines (length lines)"
    by (simp add: visibleLines_eq truncated_iff maxVisibleLines_eq)
  show "maxVisibleLines (length lines)
          = \<lfloor>(textBoxHeight (length lines) - 2 * textBoxPadding) / lineHeight\<rfloor>"
    by (simp add: maxVisibleLines_def mult.commute)
next
  fix ops
  assume gt: "\<not> int (length lines) \<le> maxVisibleLines (length lines)"
    and d: "drawCastText m lines = Some ops"
  from gt have t: "truncated lines" by (simp add: truncated_def)
  then have len: "7 < length lines" by (simp add: truncated_iff)
  from d drawCastText_truncated[OF t, of m] obtain e where
    "ops = fillTextLines firstBaseline (take 6 lines)
       @ [FillText (e @ ''...'') (120 + textBoxPadding) (firstBaseline + 6 * lineHeight)]"
    by (cases "fitEllipsis m (lines ! 6)") auto
  with len show "int (length ops) = maxVisibleLines (length lines)"
    by (simp add: length_fillTextLines maxVisibleLines_eq)
qed

text \<open>Both branches at concrete inputs: three lines, and eight lines.\<close>

theorem truncation_plan_witness:
  "int (length (take 3 lines8)) \<le> maxVisibleLines (length (take 3 lines8))
   \<and> \<not> truncated (take 3 lines8)
   \<and> drawCastText monoMeasure (take 3 lines8) =
       Some [FillText ''one'' 160 404, FillText ''two'' 160 452, FillText ''three'' 160 500]
   \<and> \<not> int (length lines8) \<le> maxVisibleLines (length lines8)
   \<and> truncated lines8
   \<and> length (visibleLines lines8) = 7"
  using truncation_plan[of "take 3 lines8" monoMeasure] truncation_plan[of lines8 monoMeasure]
  by (simp add: lines8_def maxVisibleLines_eq fillTextLines_def firstBaseline_def textBoxY_def
      textBoxPadding_def lineHeight_def enumerate_eq_zip upt_rec)

text \<open>
  C6: when truncation occurs (more wrapped lines than \<open>maxVisibleLines\<close>, and
  \<open>maxVisibleLines > 0\<close>), the last line drawn is the ellipsis-fitted last visible line, and
  with its \<open>"..."\<close> it measures at most \<open>maxWidth\<close>. The drawing loop does produce that line
  whenever \<open>"..."\<close> alone fits.
\<close>

theorem ellipsis_line_fits:
  assumes "int (length lines) > maxVisibleLines (length lines)"
    and "maxVisibleLines (length lines) > 0"
  shows "(\<forall>ops. drawCastText m lines = Some ops \<longrightarrow>
            (\<exists>t. fitEllipsis m (last (visibleLines lines)) = Some t
                 \<and> last ops = FillText (t @ ''...'') (120 + textBoxPadding)
                      (firstBaseline + real (length (visibleLines lines) - 1) * lineHeight)
                 \<and> m textFont (t @ ''...'') \<le> maxWidth))
         \<and> (m textFont ''...'' \<le> maxWidth \<longrightarrow> drawCastText m lines \<noteq> None)"
proof -
  from assms(1) have t: "truncated lines" by (simp add: truncated_def)
  then have len: "7 < length lines" by (simp add: truncated_iff)
  then have lastv: "last (visibleLines lines) = lines ! 6"
    using take_Suc_conv_app_nth[of 6 lines] by (simp add: visibleLines_eq)
  from len have lenv: "real (length (visibleLines lines) - 1) = 6" by (simp add: visibleLines_eq)
  note d = drawCastText_truncated[OF t, of m]
  have 1: "\<exists>t. fitEllipsis m (last (visibleLines lines)) = Some t
                 \<and> last ops = FillText (t @ ''...'') (120 + textBoxPadding)
                      (firstBaseline + real (length (visibleLines lines) - 1) * lineHeight)
                 \<and> m textFont (t @ ''...'') \<le> maxWidth"
    if "drawCastText m lines = Some ops" for ops
  proof -
    from that d obtain t where ft: "fitEllipsis m (lines ! 6) = Some t"
      and ops: "ops = fillTextLines firstBaseline (take 6 lines)
             @ [FillText (t @ ''...'') (120 + textBoxPadding) (firstBaseline + 6 * lineHeight)]"
      by (cases "fitEllipsis m (lines ! 6)") auto
    from fitEllipsis_sound[OF ft] have "m textFont (t @ ''...'') \<le> maxWidth" by simp
    with ft ops show ?thesis by (simp only: lastv lenv) simp
  qed
  have 2: "drawCastText m lines \<noteq> None" if "m textFont ''...'' \<le> maxWidth"
  proof -
    from that fitEllipsis_total[of m "lines ! 6"]
    obtain t where "fitEllipsis m (lines ! 6) = Some t" by blast
    with d show ?thesis by simp
  qed
  from 1 2 show ?thesis by blast
qed

text \<open>Eight lines under \<open>monoMeasure\<close>: the seventh is drawn as \<open>"seven..."\<close>.\<close>

theorem ellipsis_line_fits_witness:
  "int (length lines8) > maxVisibleLines (length lines8)
   \<and> maxVisibleLines (length lines8) > 0
   \<and> monoMeasure textFont ''...'' \<le> maxWidth
   \<and> drawCastText monoMeasure lines8 \<noteq> None
   \<and> fitEllipsis monoMeasure (last (visibleLines lines8)) = Some ''seven''
   \<and> last (the (drawCastText monoMeasure lines8)) = FillText ''seven...'' 160 692
   \<and> monoMeasure textFont ''seven...'' \<le> maxWidth"
proof -
  have f: "fitEllipsis monoMeasure ''seven'' = Some ''seven''"
    by (rule fitEllipsis_fits) (simp add: monoMeasure_def maxWidth_def width_def)
  have l: "length lines8 = 8" by (simp add: lines8_def)
  have v: "last (visibleLines lines8) = ''seven''" "length (visibleLines lines8) = 7"
    by (simp_all add: visibleLines_eq lines8_def)
  have e: "monoMeasure textFont ''...'' \<le> maxWidth"
    by (simp add: monoMeasure_def maxWidth_def width_def)
  show ?thesis
    using ellipsis_line_fits[of lines8 monoMeasure] e
    by (cases "drawCastText monoMeasure lines8")
       (simp_all add: l v f maxVisibleLines_eq firstBaseline_def textBoxY_def textBoxPadding_def
        lineHeight_def)
qed

subsection \<open>Forced breaks\<close>

text \<open>
  C8: a word with forced breaks is split on the break into a first segment, interior
  segments and a final segment. The accumulator joined with the first segment (a space
  between them when both are non-empty) is flushed as a line if it is non-empty, every
  interior segment becomes a line of its own, verbatim, empty ones included, and the final
  segment becomes the accumulator. The text \<open>"line one\nline two"\<close> wraps to the two lines
  \<open>"line one"\<close> and \<open>"line two"\<close>, untruncated, under every backend for which
  \<open>"line two"\<close> fits in \<open>maxWidth\<close>.
\<close>

theorem forced_break_word:
  assumes "newline \<in> set word" and "m textFont ''line two'' \<le> maxWidth"
  shows "(\<exists>first interior final.
            split newline word = first # interior @ [final]
          \<and> wrapStep m (lines, currentLine) word =
              (let joined = currentLine @ (if currentLine \<noteq> [] \<and> first \<noteq> [] then '' '' else [])
                            @ first
               in (lines @ (if joined \<noteq> [] then [joined] else []) @ interior, final)))
       \<and> wrapLines m twoLineText = [''line one'', ''line two'']
       \<and> \<not> truncated (wrapLines m twoLineText)"
proof (intro conjI)
  let ?parts = "split newline word"
  have "split newline word = hd ?parts # butlast (tl ?parts) @ [last ?parts]"
    by (rule split_decompose[OF assms(1)])
  moreover have "wrapStep m (lines, currentLine) word =
      (let joined = currentLine @ (if currentLine \<noteq> [] \<and> hd ?parts \<noteq> [] then '' '' else [])
                    @ hd ?parts
       in (lines @ (if joined \<noteq> [] then [joined] else []) @ butlast (tl ?parts), last ?parts))"
    by (simp add: wrapStep_break[OF assms(1)] Let_def)
  ultimately show "\<exists>first interior final.
            split newline word = first # interior @ [final]
          \<and> wrapStep m (lines, currentLine) word =
              (let joined = currentLine @ (if currentLine \<noteq> [] \<and> first \<noteq> [] then '' '' else [])
                            @ first
               in (lines @ (if joined \<noteq> [] then [joined] else []) @ interior, final))"
    by blast
  from assms(2) show w: "wrapLines m twoLineText = [''line one'', ''line two'']"
    by (simp add: wrapLines_def wrapStep_def twoLineText_def newline_def Let_def)
  show "\<not> truncated (wrapLines m twoLineText)"
    by (simp add: w truncated_iff)
qed

text \<open>A word with an empty interior segment, and the two-line text.\<close>

theorem forced_break_word_witness:
  "newline \<in> set (''a'' @ [newline, newline] @ ''b'')
   \<and> monoMeasure textFont ''line two'' \<le> maxWidth
   \<and> split newline (''a'' @ [newline, newline] @ ''b'') = [''a'', '''', ''b'']
   \<and> wrapStep monoMeasure ([''x''], ''y'') (''a'' @ [newline, newline] @ ''b'')
       = ([''x'', ''y a'', ''''], ''b'')
   \<and> wrapLines monoMeasure twoLineText = [''line one'', ''line two'']"
  using forced_break_word[of "''a'' @ [newline, newline] @ ''b''" monoMeasure "[''x'']" "''y''"]
  by (simp add: newline_def monoMeasure_def maxWidth_def width_def)

subsection \<open>The scenario of eleven wrapped lines\<close>

lemma scenarioText_facts:
  "length scenarioText = 300" "newline \<notin> set scenarioText"
  by (simp_all add: scenarioText_def newline_def length_concat sum_list_replicate)

lemma scenarioText_wraps:
  "length (wrapLines monoMeasure scenarioText) = 11"
  by (simp add: scenarioText_def wrapLines_def wrapStep_plain newline_def monoMeasure_def
      maxWidth_def width_def eval_nat_numeral)

text \<open>
  C7, as the code has it: for a 300-character text without forced breaks that wraps to 11
  lines, \<open>maxVisibleLines\<close> is 7; the text is truncated, 7 lines are visible, the first six
  are drawn unchanged and the seventh is drawn ellipsis-fitted (the drawing returns
  whenever \<open>"..."\<close> alone fits).
\<close>

theorem scenario_eleven_lines_shows_seven:
  assumes "length txt = 300" and "newline \<notin> set txt" and "length (wrapLines m txt) = 11"
  shows "maxVisibleLines (length (wrapLines m txt)) = 7
     \<and> truncated (wrapLines m txt)
     \<and> length (visibleLines (wrapLines m txt)) = 7
     \<and> drawCastText m (wrapLines m txt) =
         map_option
           (\<lambda>t. fillTextLines firstBaseline (take 6 (wrapLines m txt))
                 @ [FillText (t @ ''...'') (120 + textBoxPadding) (firstBaseline + 6 * lineHeight)])
           (fitEllipsis m (wrapLines m txt ! 6))
     \<and> (m textFont ''...'' \<le> maxWidth \<longrightarrow> drawCastText m (wrapLines m txt) \<noteq> None)"
proof -
  let ?lines = "wrapLines m txt"
  from assms(3) have t: "truncated ?lines" by (simp add: truncated_iff)
  note d = drawCastText_truncated[OF t, of m]
  have "drawCastText m ?lines \<noteq> None" if "m textFont ''...'' \<le> maxWidth"
  proof -
    from that fitEllipsis_total[of m "?lines ! 6"]
    obtain t where "fitEllipsis m (?lines ! 6) = Some t" by blast
    with d show ?thesis by simp
  qed
  with assms(3) t d show ?thesis
    by (simp add: maxVisibleLines_eq visibleLines_eq)
qed

theorem scenario_eleven_lines_shows_seven_witness:
  "length scenarioText = 300 \<and> newline \<notin> set scenarioText
   \<and> length (wrapLines monoMeasure scenarioText) = 11
   \<and> monoMeasure textFont ''...'' \<le> maxWidth
   \<and> truncated (wrapLines monoMeasure scenarioText)
   \<and> length (visibleLines (wrapLines monoMeasure scenarioText)) = 7
   \<and> drawCastText monoMeasure (wrapLines monoMeasure scenarioText) \<noteq> None"
proof -
  have e: "monoMeasure textFont ''...'' \<le> maxWidth"
    by (simp add: monoMeasure_def maxWidth_def width_def)
  show ?thesis
    using scenario_eleven_lines_shows_seven[OF scenarioText_facts scenarioText_wraps] e
      scenarioText_facts scenarioText_wraps
    by blast
qed

text \<open>
  C7 as stated fails: a 300-character text that wraps to 11 lines gets 7 visible lines,
  not 9.
\<close>

theorem scenario_eleven_lines_not_nine:
  "length scenarioText = 300 \<and> newline \<notin> set scenarioText
   \<and> length (wrapLines monoMeasure scenarioText) = 11
   \<and> maxVisibleLines (length (wrapLines monoMeasure scenarioText)) = 7
   \<and> maxVisibleLines (length (wrapLines monoMeasure scenarioText)) \<noteq> 9
   \<and> length (visibleLines (wrapLines monoMeasure scenarioText)) = 7
   \<and> length (visibleLines (wrapLines monoMeasure scenarioText)) \<noteq> 9"
  by (simp add: scenarioText_facts scenarioText_wraps maxVisibleLines_eq visibleLines_eq)

subsection \<open>Empty cast text\<close>

lemma wrapLines_empty: "wrapLines m '''' = []"
  by (simp add: wrapLines_def wrapStep_plain newline_def)

lemma wrapLines_placeholder:
  "wrapLines m ''No cast text available'' \<noteq> []"
  "length (wrapLines m ''No cast text available'') \<le> 4"
  by (simp_all add: wrapLines_def wrapStep_plain newline_def)

lemma generateImageForCast_None_iff:
  "generateImageForCast m u now castInfo tokenName = None
     \<longleftrightarrow> drawCastText m (wrapLines m (castText castInfo)) = None"
  by (simp add: generateImageForCast_def Let_def)

text \<open>
  C9, as the code has it: an empty cast text is not an error. The render replaces it by the
  placeholder \<open>"No cast text available"\<close> before wrapping, so the wrapping stage of the render
  yields between one and four lines (never zero), nothing is truncated and the render
  returns. The wrap loop run on the empty text itself yields zero lines.
\<close>

theorem empty_text_renders_placeholder:
  assumes "cast_text castInfo = []"
  shows "castText castInfo = ''No cast text available''
     \<and> wrapLines m (castText castInfo) \<noteq> []
     \<and> length (wrapLines m (castText castInfo)) \<le> 4
     \<and> \<not> truncated (wrapLines m (castText castInfo))
     \<and> generateImageForCast m u now castInfo tokenName \<noteq> None
     \<and> wrapLines m (cast_text castInfo) = []"
proof -
  from assms have c: "castText castInfo = ''No cast text available''" by (simp add: castText_def)
  have nt: "\<not> truncated (wrapLines m ''No cast text available'')"
    using wrapLines_placeholder(2)[of m] by (simp add: truncated_iff)
  from drawCastText_plain[OF nt, of m]
  have "generateImageForCast m u now castInfo tokenName \<noteq> None"
    by (simp add: generateImageForCast_None_iff c)
  with nt show ?thesis
    by (simp only: c assms wrapLines_empty wrapLines_placeholder) simp
qed

theorem empty_text_renders_placeholder_witness:
  "cast_text emptyCast = []
   \<and> castText emptyCast = ''No cast text available''
   \<and> wrapLines monoMeasure (castText emptyCast) \<noteq> []
   \<and> generateImageForCast monoMeasure asciiUpperCase ''2025-06-01T12:00:00.000Z'' emptyCast ''MoonCat'' \<noteq> None"
proof -
  have h: "cast_text emptyCast = []" by (simp add: emptyCast_def)
  show ?thesis
    using empty_text_renders_placeholder[OF h, of monoMeasure asciiUpperCase "''2025-06-01T12:00:00.000Z''" "''MoonCat''"] h
    by blast
qed

text \<open>
  C9 as stated fails: for an empty cast text the render wraps, and draws, the placeholder
  line.
\<close>

theorem empty_text_wraps_to_placeholder_line:
  "cast_text emptyCast = []
   \<and> wrapLines monoMeasure (castText emptyCast) = [''No cast text available'']
   \<and> wrapLines monoMeasure (castText emptyCast) \<noteq> []
   \<and> drawCastText monoMeasure (wrapLines monoMeasure (castText emptyCast))
        = Some [FillText ''No cast text available'' 160 404]"
proof -
  have w: "wrapLines monoMeasure (castText emptyCast) = [''No cast text available'']"
    by (simp add: emptyCast_def castText_def wrapLines_def wrapStep_plain newline_def
        monoMeasure_def maxWidth_def width_def)
  have "\<not> truncated [''No cast text available'']" by (simp add: truncated_iff)
  from drawCastText_plain[OF this, of monoMeasure] w show ?thesis
    by (simp add: emptyCast_def fillTextLines_def firstBaseline_def textBoxY_def textBoxPadding_def
        lineHeight_def)
qed

subsection \<open>Dependence of the render on the clock\<close>

lemma drawFooter_snoc:
  "drawFooter now = butlast (drawFooter now') @ [footerCaption now]"
  by (simp add: drawFooter_def footerCaption_def)

lemma generateImageForCast_footer:
  assumes "generateImageForCast m u now castInfo tokenName = Some ops"
  shows "\<exists>body. ops = body @ [footerCaption now]
           \<and> generateImageForCast m u now' castInfo tokenName = Some (body @ [footerCaption now'])"
proof -
  let ?lines = "wrapLines m (castText castInfo)"
  from assms obtain textOps where t: "drawCastText m ?lines = Some textOps"
    by (cases "drawCastText m ?lines") (simp_all add: generateImageForCast_def Let_def)
  let ?body = "drawHeader castInfo tokenName @ drawDisplayName m castInfo
      @ [SetFont textFont, SetFillStyle (Color ''#F8FAFC'')]
      @ drawTextBox (textBoxHeight (length ?lines)) @ textOps
      @ drawToken u (textBoxY + textBoxHeight (length ?lines) + 100) tokenName
      @ butlast (drawFooter now)"
  have "generateImageForCast m u t castInfo tokenName = Some (?body @ [footerCaption t])" for t
    using t by (simp add: generateImageForCast_def Let_def drawFooter_snoc[of t now])
  with assms show ?thesis by (metis option.inject)
qed

lemma sampleCast_renders:
  "generateImageForCast monoMeasure asciiUpperCase now sampleCast ''MoonCat'' \<noteq> None"
proof -
  have "wrapLines monoMeasure (castText sampleCast) = [''gm'']"
    by (simp add: sampleCast_def castText_def wrapLines_def wrapStep_plain newline_def)
  then have "\<not> truncated (wrapLines monoMeasure (castText sampleCast))"
    by (simp add: truncated_iff)
  from drawCastText_plain[OF this, of monoMeasure] show ?thesis
    by (simp add: generateImageForCast_None_iff)
qed

text \<open>
  C2, as the code has it: the footer caption carries \<open>new Date().toISOString()\<close>, read at
  render time. Two renders of the same cast and token name under the same backend either
  both return or both do not; when they return, they agree on every drawing operation but
  the last, which draws the footer caption with the render's own timestamp. With equal
  timestamps the two outputs are equal.
\<close>

theorem render_differs_only_in_footer_timestamp:
  "(generateImageForCast m u now1 castInfo tokenName = None
      \<longleftrightarrow> generateImageForCast m u now2 castInfo tokenName = None)
   \<and> (\<forall>ops1 ops2.
         generateImageForCast m u now1 castInfo tokenName = Some ops1
         \<and> generateImageForCast m u now2 castInfo tokenName = Some ops2 \<longrightarrow>
           butlast ops1 = butlast ops2
           \<and> last ops1 = footerCaption now1 \<and> last ops2 = footerCaption now2
           \<and> (now1 = now2 \<longrightarrow> ops1 = ops2))"
proof (intro conjI allI impI)
  show "generateImageForCast m u now1 castInfo tokenName = None
      \<longleftrightarrow> generateImageForCast m u now2 castInfo tokenName = None"
    by (simp add: generateImageForCast_None_iff)
next
  fix ops1 ops2
  assume a: "generateImageForCast m u now1 castInfo tokenName = Some ops1
         \<and> generateImageForCast m u now2 castInfo tokenName = Some ops2"
  from generateImageForCast_footer[of m u now1 castInfo tokenName ops1 now2] a
  obtain body where "ops1 = body @ [footerCaption now1]" "ops2 = body @ [footerCaption now2]"
    by auto
  then show "butlast ops1 = butlast ops2" "last ops1 = footerCaption now1"
    "last ops2 = footerCaption now2" by simp_all
  assume "now1 = now2"
  with a show "ops1 = ops2" by auto
qed

theorem render_differs_only_in_footer_timestamp_witness:
  "generateImageForCast monoMeasure asciiUpperCase ''2025-06-01T12:00:00.000Z'' sampleCast ''MoonCat'' \<noteq> None
   \<and> generateImageForCast monoMeasure asciiUpperCase ''2025-06-01T12:00:01.000Z'' sampleCast ''MoonCat'' \<noteq> None
   \<and> butlast (the (generateImageForCast monoMeasure asciiUpperCase ''2025-06-01T12:00:00.000Z'' sampleCast ''MoonCat''))
     = butlast (the (generateImageForCast monoMeasure asciiUpperCase ''2025-06-01T12:00:01.000Z'' sampleCast ''MoonCat''))
   \<and> last (the (generateImageForCast monoMeasure asciiUpperCase ''2025-06-01T12:00:00.000Z'' sampleCast ''MoonCat''))
     = footerCaption ''2025-06-01T12:00:00.000Z''"
  using render_differs_only_in_footer_timestamp
    [of monoMeasure asciiUpperCase "''2025-06-01T12:00:00.000Z''" sampleCast "''MoonCat''" "''2025-06-01T12:00:01.000Z''"]
    sampleCast_renders[of "''2025-06-01T12:00:00.000Z''"]
    sampleCast_renders[of "''2025-06-01T12:00:01.000Z''"]
  by auto

text \<open>
  C2 as stated fails: the same cast and token name rendered one second apart give
  different drawing sequences, hence different surfaces to encode.
\<close>

theorem render_depends_on_clock:
  "generateImageForCast monoMeasure asciiUpperCase ''2025-06-01T12:00:00.000Z'' sampleCast ''MoonCat''
     \<noteq> generateImageForCast monoMeasure asciiUpperCase ''2025-06-01T12:00:01.000Z'' sampleCast ''MoonCat''"
proof
  assume eq: "generateImageForCast monoMeasure asciiUpperCase ''2025-06-01T12:00:00.000Z'' sampleCast ''MoonCat''
     = generateImageForCast monoMeasure asciiUpperCase ''2025-06-01T12:00:01.000Z'' sampleCast ''MoonCat''"
  from sampleCast_renders[of "''2025-06-01T12:00:00.000Z''"] obtain ops
    where o1: "generateImageForCast monoMeasure asciiUpperCase ''2025-06-01T12:00:00.000Z'' sampleCast ''MoonCat'' = Some ops"
    by auto
  from generateImageForCast_footer[OF o1, of "''2025-06-01T12:00:01.000Z''"] eq o1
  have "footerCaption ''2025-06-01T12:00:00.000Z'' = footerCaption ''2025-06-01T12:00:01.000Z''"
    by auto
  then show False by (simp add: footerCaption_def)
qed

end
